theory Spec2Isabelle
  imports Main "HOL-Library.Word" "HOL-Library.Sublist"
begin

section \<open>The iterable view over an EMCAL container\<close>

text \<open>
  A shallow embedding of \<^verbatim>\<open>PWG/EMCAL/EMCALbase/AliEmcalIterableContainer.h\<close>: the class
  template \<^verbatim>\<open>AliEmcalIterableContainerT<T>\<close> and its nested \<^verbatim>\<open>iterator\<close>.

  \<^item> \<^verbatim>\<open>int\<close>, \<^verbatim>\<open>Int_t\<close> and \<^verbatim>\<open>UInt_t\<close> are 32-bit words. Comparisons of \<^verbatim>\<open>int\<close>
    values are the signed ones (\<open><s\<close>, \<open>\<le>s\<close>), \<open>sint\<close> reads a word as two's
    complement, and \<open>+\<close> and \<open>-\<close> wrap around.
  \<^item> A pointer that the source sets to \<^verbatim>\<open>NULL\<close> somewhere is an \<open>option\<close>; going
    through a null pointer is the value \<open>Inl NullPointer\<close> of a result type
    \<open>fault + 'a\<close>.
  \<^item> A pointer to an element, \<^verbatim>\<open>T *\<close>, is an \<open>'a option\<close>: \<open>None\<close> is \<^verbatim>\<open>NULL\<close>, the
    empty result. The \<^verbatim>\<open>static_cast<T*>\<close> of \<^verbatim>\<open>operator[]\<close> changes no value.
\<close>

type_synonym Int_t = "32 word"
type_synonym UInt_t = "32 word"

datatype fault = NullPointer

subsection \<open>The backing collection\<close>

text \<open>
  \<^verbatim>\<open>AliEmcalContainer\<close> is only forward-declared in the header (line 10); the view uses
  four of its \<^verbatim>\<open>const\<close> member functions. The collection is a parameter of the model:
  a record of these four functions, with no assumption relating them.
  \<^verbatim>\<open>AcceptObject(index, rejectionReason)\<close> takes the rejection reason by reference and
  returns the verdict; here it returns the verdict and the updated reason.
\<close>

record 'a AliEmcalContainer =
  GetNEntries :: Int_t
  GetNAcceptEntries :: Int_t
  AcceptObject :: "Int_t \<Rightarrow> UInt_t \<Rightarrow> bool \<times> UInt_t"
  cont_index :: "Int_t \<Rightarrow> 'a option"

subsection \<open>The index storage: ROOT's TArrayI\<close>

text \<open>
  \<^verbatim>\<open>TArrayI\<close> (header \<^verbatim>\<open>TArrayI.h\<close>, included at line 8) is the integer array of the ROOT
  library. The view uses its default constructor, \<^verbatim>\<open>Set\<close>, \<^verbatim>\<open>GetSize\<close> and both
  subscript operators, modelled here after ROOT's implementation:
  \<^item> the array is a size \<^verbatim>\<open>fN\<close> and a pointer \<^verbatim>\<open>fArray\<close>, null when the size is 0;
  \<^item> \<^verbatim>\<open>Set(n)\<close> does nothing for \<^verbatim>\<open>n < 0\<close> or \<^verbatim>\<open>n == fN\<close>; otherwise it allocates
    \<^verbatim>\<open>n\<close> cells, copies the old cells that fit and fills the rest with 0 (for
    \<^verbatim>\<open>n == 0\<close> the pointer becomes null);
  \<^item> \<^verbatim>\<open>BoundsOk(where, at)\<close> is \<^verbatim>\<open>!(at < 0 || at >= fN)\<close>, and reports an error
    through \<^verbatim>\<open>OutOfBoundsError\<close> when it fails;
  \<^item> the non-const \<^verbatim>\<open>operator[](i)\<close> returns a reference to \<^verbatim>\<open>fArray[i]\<close>, and to
    \<^verbatim>\<open>fArray[0]\<close> when \<^verbatim>\<open>i\<close> is out of bounds; it never resizes;
  \<^item> the const \<^verbatim>\<open>operator[](i)\<close> returns \<^verbatim>\<open>fArray[i]\<close>, and 0 when \<^verbatim>\<open>i\<close> is out of
    bounds.
\<close>

record TArrayI =
  fN :: Int_t
  fArray :: "Int_t list option"

definition TArrayI_default :: TArrayI where
  "TArrayI_default = \<lparr>fN = 0, fArray = None\<rparr>"

definition cells :: "TArrayI \<Rightarrow> Int_t list" where
  "cells a = (case fArray a of None \<Rightarrow> [] | Some xs \<Rightarrow> xs)"

definition GetSize :: "TArrayI \<Rightarrow> Int_t" where
  "GetSize a = fN a"

definition TArrayI_Set :: "Int_t \<Rightarrow> TArrayI \<Rightarrow> TArrayI" where
  "TArrayI_Set n a =
     (if n <s 0 then a
      else if n \<noteq> fN a then
        (if n \<noteq> 0 then
           \<lparr>fN = n,
            fArray = Some (if n <s fN a then take (nat (sint n)) (cells a)
                           else cells a @ replicate (nat (sint n) - nat (sint (fN a))) 0)\<rparr>
         else \<lparr>fN = n, fArray = None\<rparr>)
      else a)"

definition BoundsOk :: "TArrayI \<Rightarrow> Int_t \<Rightarrow> bool" where
  "BoundsOk a at = (\<not> (at <s 0 \<or> fN a \<le>s at))"

text \<open>
  \<^verbatim>\<open>a[i] = v\<close> through the non-const operator. The third argument and the second
  component of the result are the indices reported by \<^verbatim>\<open>OutOfBoundsError\<close> so far.
\<close>

definition TArrayI_assign ::
  "TArrayI \<Rightarrow> Int_t \<Rightarrow> Int_t \<Rightarrow> Int_t list \<Rightarrow> fault + (TArrayI \<times> Int_t list)" where
  "TArrayI_assign a i v errs =
     (let (j, errs') = (if BoundsOk a i then (i, errs) else (0, errs @ [i]))
      in case fArray a of
           None \<Rightarrow> Inl NullPointer
         | Some xs \<Rightarrow> Inr (a\<lparr>fArray := Some (xs[nat (sint j) := v])\<rparr>, errs'))"

text \<open>\<^verbatim>\<open>a[i]\<close> through the const operator.\<close>

definition TArrayI_at :: "TArrayI \<Rightarrow> Int_t \<Rightarrow> fault + Int_t" where
  "TArrayI_at a i =
     (if \<not> BoundsOk a i then Inr 0
      else case fArray a of
             None \<Rightarrow> Inl NullPointer
           | Some xs \<Rightarrow> Inr (xs ! nat (sint i)))"

subsection \<open>The view\<close>

record 'a AliEmcalIterableContainerT =
  fkContainer :: "'a AliEmcalContainer option"
  fAcceptIndices :: TArrayI
  fUseAccepted :: bool

text \<open>The state of the loop of \<^verbatim>\<open>BuildAcceptIndices\<close> (lines 257-265).\<close>

record builder =
  indices :: TArrayI
  acceptCounter :: Int_t
  reported :: "Int_t list"

text \<open>
  The loop body at \<^verbatim>\<open>index\<close>:
  \<^verbatim>\<open>UInt_t rejectionReason = 0;
  if(fkContainer->AcceptObject(index, rejectionReason)) fAcceptIndices[acceptCounter++] = index;\<close>
\<close>

definition BuildAcceptIndices_body ::
  "'a AliEmcalContainer \<Rightarrow> Int_t \<Rightarrow> builder \<Rightarrow> fault + builder" where
  "BuildAcceptIndices_body c index s =
     (let (accepted, rejectionReason) = AcceptObject c index 0
      in if accepted then
           (case TArrayI_assign (indices s) (acceptCounter s) index (reported s) of
              Inl f \<Rightarrow> Inl f
            | Inr (a, errs) \<Rightarrow>
                Inr \<lparr>indices = a, acceptCounter = acceptCounter s + 1, reported = errs\<rparr>)
         else Inr s)"

text \<open>\<^verbatim>\<open>for(int index = ...; index < fkContainer->GetNEntries(); index++)\<close>\<close>

function BuildAcceptIndices_loop ::
  "'a AliEmcalContainer \<Rightarrow> Int_t \<Rightarrow> builder \<Rightarrow> fault + builder" where
  "BuildAcceptIndices_loop c index s =
     (if index <s GetNEntries c then
        (case BuildAcceptIndices_body c index s of
           Inl f \<Rightarrow> Inl f
         | Inr s' \<Rightarrow> BuildAcceptIndices_loop c (index + 1) s')
      else Inr s)"
  by pat_completeness auto
termination
proof (relation "measure (\<lambda>(c, index, s). nat (sint (GetNEntries c) - sint index))")
  show "wf (measure (\<lambda>(c :: 'a AliEmcalContainer, index, s :: builder).
              nat (sint (GetNEntries c) - sint index)))"
    by simp
next
  fix c :: "'a AliEmcalContainer" and index :: Int_t and s s' :: builder
  assume less: "index <s GetNEntries c"
  have "sint index < sint (GetNEntries c)"
    using less by (simp add: word_sless_alt)
  moreover have "sint (GetNEntries c) < 2147483648" "- 2147483648 \<le> sint index"
    using sint_lt [of "GetNEntries c"] sint_ge [of index] by simp_all
  ultimately have "signed_take_bit 31 (sint index + 1) = sint index + 1"
    by (intro signed_take_bit_int_eq_self) simp_all
  then have "sint (index + 1) = sint index + 1"
    by (simp add: sint_word_add)
  with \<open>sint index < sint (GetNEntries c)\<close>
  show "((c, index + 1, s'), (c, index, s))
          \<in> measure (\<lambda>(c, index, s). nat (sint (GetNEntries c) - sint index))"
    by simp
qed

declare BuildAcceptIndices_loop.simps [simp del]

text \<open>
  \<^verbatim>\<open>BuildAcceptIndices()\<close>: \<^verbatim>\<open>fAcceptIndices.Set(fkContainer->GetNAcceptEntries());
  int acceptCounter = 0;\<close> and the loop from \<^verbatim>\<open>index = 0\<close>. The result is the final
  loop state; its \<open>indices\<close> are the new \<^verbatim>\<open>fAcceptIndices\<close>.
\<close>

definition BuildAcceptIndices :: "'a AliEmcalIterableContainerT \<Rightarrow> fault + builder" where
  "BuildAcceptIndices v =
     (case fkContainer v of
        None \<Rightarrow> Inl NullPointer
      | Some c \<Rightarrow>
          BuildAcceptIndices_loop c 0
            \<lparr>indices = TArrayI_Set (GetNAcceptEntries c) (fAcceptIndices v),
             acceptCounter = 0, reported = []\<rparr>)"

text \<open>The default (I/O) constructor, lines 166-173.\<close>

definition AliEmcalIterableContainerT_default :: "'a AliEmcalIterableContainerT" where
  "AliEmcalIterableContainerT_default =
     \<lparr>fkContainer = None, fAcceptIndices = TArrayI_default, fUseAccepted = False\<rparr>"

text \<open>The standard constructor, lines 181-188.\<close>

definition AliEmcalIterableContainerT_ctor ::
  "'a AliEmcalContainer option \<Rightarrow> bool \<Rightarrow> fault + 'a AliEmcalIterableContainerT" where
  "AliEmcalIterableContainerT_ctor cont useAccept =
     (let v = \<lparr>fkContainer = cont, fAcceptIndices = TArrayI_default,
                fUseAccepted = useAccept\<rparr>
      in if fUseAccepted v then
           (case BuildAcceptIndices v of
              Inl f \<Rightarrow> Inl f
            | Inr s \<Rightarrow> Inr (v\<lparr>fAcceptIndices := indices s\<rparr>))
         else Inr v)"

text \<open>\<^verbatim>\<open>GetEntries()\<close>, lines 225-228.\<close>

definition GetEntries :: "'a AliEmcalIterableContainerT \<Rightarrow> fault + Int_t" where
  "GetEntries v =
     (if fUseAccepted v then Inr (GetSize (fAcceptIndices v))
      else case fkContainer v of
             None \<Rightarrow> Inl NullPointer
           | Some c \<Rightarrow> Inr (GetNEntries c))"

text \<open>
  \<^verbatim>\<open>operator[](int index)\<close>, lines 245-250. The test \<^verbatim>\<open>index < 0 || index >= GetEntries()\<close>
  evaluates \<^verbatim>\<open>GetEntries()\<close> only for a non-negative index.
\<close>

definition op_index :: "'a AliEmcalIterableContainerT \<Rightarrow> Int_t \<Rightarrow> fault + 'a option" where
  "op_index v index =
     (if index <s 0 then Inr None
      else
        (case GetEntries v of
           Inl f \<Rightarrow> Inl f
         | Inr n \<Rightarrow>
             if n \<le>s index then Inr None
             else
               (case fkContainer v of
                  None \<Rightarrow> Inl NullPointer
                | Some contref \<Rightarrow>
                    if fUseAccepted v then
                      (case TArrayI_at (fAcceptIndices v) index of
                         Inl f \<Rightarrow> Inl f
                       | Inr p \<Rightarrow> Inr (cont_index contref p))
                    else Inr (cont_index contref index))))"

subsection \<open>The iterator\<close>

text \<open>
  \<^verbatim>\<open>fkData\<close> points to the view the iterator was made from; the view does not change
  after its construction, so the iterator holds its value.
\<close>

record 'a iterator =
  fkData :: "'a AliEmcalIterableContainerT"
  fCurrent :: Int_t
  fForward :: bool

definition iterator_ctor :: "'a AliEmcalIterableContainerT \<Rightarrow> Int_t \<Rightarrow> bool \<Rightarrow> 'a iterator" where
  "iterator_ctor cont currentpos forward =
     \<lparr>fkData = cont, fCurrent = currentpos, fForward = forward\<rparr>"

text \<open>\<^verbatim>\<open>operator!=\<close>, lines 327-330.\<close>

definition op_neq :: "'a iterator \<Rightarrow> 'a iterator \<Rightarrow> bool" where
  "op_neq it ref = (fCurrent it \<noteq> fCurrent ref)"

text \<open>Prefix \<^verbatim>\<open>operator++\<close> (lines 337-342) and \<^verbatim>\<open>operator--\<close> (lines 349-354).\<close>

definition op_incr :: "'a iterator \<Rightarrow> 'a iterator" where
  "op_incr it =
     (if fForward it then it\<lparr>fCurrent := fCurrent it + 1\<rparr>
      else it\<lparr>fCurrent := fCurrent it - 1\<rparr>)"

definition op_decr :: "'a iterator \<Rightarrow> 'a iterator" where
  "op_decr it =
     (if fForward it then it\<lparr>fCurrent := fCurrent it - 1\<rparr>
      else it\<lparr>fCurrent := fCurrent it + 1\<rparr>)"

text \<open>
  Postfix \<^verbatim>\<open>operator++(int)\<close> (lines 363-368) and \<^verbatim>\<open>operator--(int)\<close> (lines 377-382):
  the returned copy \<^verbatim>\<open>tmp\<close> first, the iterator after the step second.
\<close>

definition op_incr_post :: "'a iterator \<Rightarrow> 'a iterator \<times> 'a iterator" where
  "op_incr_post it = (let tmp = it in (tmp, op_incr it))"

definition op_decr_post :: "'a iterator \<Rightarrow> 'a iterator \<times> 'a iterator" where
  "op_decr_post it = (let tmp = it in (tmp, op_decr it))"

text \<open>\<^verbatim>\<open>operator*\<close>, lines 389-392.\<close>

definition op_deref :: "'a iterator \<Rightarrow> fault + 'a option" where
  "op_deref it = op_index (fkData it) (fCurrent it)"

text \<open>\<^verbatim>\<open>begin()\<close>, \<^verbatim>\<open>end()\<close>, \<^verbatim>\<open>rbegin()\<close> and \<^verbatim>\<open>rend()\<close>, lines 129-150.\<close>

definition begin_it :: "'a AliEmcalIterableContainerT \<Rightarrow> 'a iterator" where
  "begin_it v = iterator_ctor v 0 True"

definition end_it :: "'a AliEmcalIterableContainerT \<Rightarrow> fault + 'a iterator" where
  "end_it v =
     (case GetEntries v of Inl f \<Rightarrow> Inl f | Inr n \<Rightarrow> Inr (iterator_ctor v n True))"

definition rbegin :: "'a AliEmcalIterableContainerT \<Rightarrow> fault + 'a iterator" where
  "rbegin v =
     (case GetEntries v of Inl f \<Rightarrow> Inl f | Inr n \<Rightarrow> Inr (iterator_ctor v (n - 1) False))"

definition rend :: "'a AliEmcalIterableContainerT \<Rightarrow> 'a iterator" where
  "rend v = iterator_ctor v (- 1) False"

subsection \<open>Traversals\<close>

text \<open>
  The loop of the class documentation (lines 38-40),
  \<^verbatim>\<open>for(iterator iter = first; iter != stop; ++iter){ /* use *iter */ }\<close>,
  collecting what each dereference returns. A fault in a dereference ends the loop.
  Nothing in the loop bounds the number of steps, so it is a partial function: \<open>None\<close>
  is a loop that does not end. The view does not change during the loop, so \<^verbatim>\<open>end()\<close>
  and \<^verbatim>\<open>rend()\<close> are evaluated once.
\<close>

partial_function (option) traverse ::
  "'a iterator \<Rightarrow> 'a iterator \<Rightarrow> 'a option list \<Rightarrow> (fault + 'a option list) option" where
  "traverse iter stop visited =
     (if op_neq iter stop then
        (case op_deref iter of
           Inl f \<Rightarrow> Some (Inl f)
         | Inr x \<Rightarrow> traverse (op_incr iter) stop (visited @ [x]))
      else Some (Inr visited))"

declare traverse.simps [code]

definition forward_traversal ::
  "'a AliEmcalIterableContainerT \<Rightarrow> (fault + 'a option list) option" where
  "forward_traversal v =
     (case end_it v of
        Inl f \<Rightarrow> Some (Inl f)
      | Inr stop \<Rightarrow> traverse (begin_it v) stop [])"

definition backward_traversal ::
  "'a AliEmcalIterableContainerT \<Rightarrow> (fault + 'a option list) option" where
  "backward_traversal v =
     (case rbegin v of
        Inl f \<Rightarrow> Some (Inl f)
      | Inr first \<Rightarrow> traverse first (rend v) [])"

subsection \<open>The positions of a collection, in the words of the specification\<close>

text \<open>
  The positions \<open>[0, count())\<close> of a collection in increasing order, and those of them
  for which the acceptance predicate holds. The predicate at a position is the verdict
  of \<^verbatim>\<open>AcceptObject\<close> called as the builder calls it, with a rejection reason of 0.
\<close>

definition accepts :: "'a AliEmcalContainer \<Rightarrow> Int_t \<Rightarrow> bool" where
  "accepts c p = fst (AcceptObject c p 0)"

definition positions :: "'a AliEmcalContainer \<Rightarrow> Int_t list" where
  "positions c = map word_of_int [0 .. sint (GetNEntries c) - 1]"

definition accepted_positions :: "'a AliEmcalContainer \<Rightarrow> Int_t list" where
  "accepted_positions c = filter (accepts c) (positions c)"

text \<open>The accepted positions from position \<open>i\<close> on: what the loop has still to store.\<close>

definition accepted_from :: "'a AliEmcalContainer \<Rightarrow> Int_t \<Rightarrow> Int_t list" where
  "accepted_from c i =
     filter (accepts c) (map word_of_int [sint i .. sint (GetNEntries c) - 1])"

subsection \<open>Well-formed index storage\<close>

text \<open>
  What ROOT keeps true of a \<^verbatim>\<open>TArrayI\<close>: the pointer is null exactly when the size is
  0, and it points to as many cells as the size says.
\<close>

definition wf_TArrayI :: "TArrayI \<Rightarrow> bool" where
  "wf_TArrayI a =
     (case fArray a of
        None \<Rightarrow> fN a = 0
      | Some xs \<Rightarrow> 0 <s fN a \<and> int (length xs) = sint (fN a))"

subsection \<open>Example collections\<close>

text \<open>
  The scenario of the specification: five elements, the predicate accepts the positions
  1, 3 and 4, and the collection reports three accepted entries. The element at
  position \<open>p\<close> is the number \<open>100 + p\<close>. The other collections differ from it in what
  they report, or in their elements and rejection reasons.
\<close>

definition scenario :: "Int_t AliEmcalContainer" where
  "scenario =
     \<lparr>GetNEntries = 5, GetNAcceptEntries = 3,
      AcceptObject = (\<lambda>i r. if i = 1 \<or> i = 3 \<or> i = 4 then (True, r) else (False, 1)),
      cont_index = (\<lambda>i. if 0 \<le>s i \<and> i <s 5 then Some (100 + i) else None)\<rparr>"

definition over_reporting :: "Int_t AliEmcalContainer" where
  "over_reporting = scenario\<lparr>GetNEntries := 3, GetNAcceptEntries := 2\<rparr>"

definition under_reporting :: "Int_t AliEmcalContainer" where
  "under_reporting = scenario\<lparr>GetNAcceptEntries := 1\<rparr>"

definition zero_reporting :: "Int_t AliEmcalContainer" where
  "zero_reporting = scenario\<lparr>GetNAcceptEntries := 0\<rparr>"

definition other_elements :: "bool AliEmcalContainer" where
  "other_elements =
     \<lparr>GetNEntries = 5, GetNAcceptEntries = 3,
      AcceptObject = (\<lambda>i r. if i = 1 \<or> i = 3 \<or> i = 4 then (True, 0) else (False, 2)),
      cont_index = (\<lambda>i. if 0 \<le>s i \<and> i <s 5 then Some (i = 2) else None)\<rparr>"

definition empty_collection :: "Int_t AliEmcalContainer" where
  "empty_collection =
     \<lparr>GetNEntries = 0, GetNAcceptEntries = 0,
      AcceptObject = (\<lambda>i r. (False, 1)), cont_index = (\<lambda>i. None)\<rparr>"

section \<open>Auxiliary facts\<close>

subsection \<open>Signed 32-bit arithmetic\<close>

lemma sint_range32: "- 2147483648 \<le> sint (x :: Int_t) \<and> sint x < 2147483648"
  using sint_ge [of x] sint_lt [of x] by simp

lemma sint_succ:
  fixes i n :: Int_t
  assumes "sint i < sint n"
  shows "sint (i + 1) = sint i + 1"
proof -
  have "sint i + 1 < 2147483648" "- 2147483648 \<le> sint i + 1"
    using assms sint_range32 [of n] sint_range32 [of i] by linarith+
  then have "signed_take_bit 31 (sint i + 1) = sint i + 1"
    by (intro signed_take_bit_int_eq_self) simp_all
  then show ?thesis by (simp add: sint_word_add)
qed

lemma sint_pred:
  fixes i n :: Int_t
  assumes "sint n < sint i"
  shows "sint (i - 1) = sint i - 1"
proof -
  have "sint i - 1 < 2147483648" "- 2147483648 \<le> sint i - 1"
    using assms sint_range32 [of n] sint_range32 [of i] by linarith+
  then have "signed_take_bit 31 (sint i - 1) = sint i - 1"
    by (intro signed_take_bit_int_eq_self) simp_all
  then show ?thesis by (simp add: sint_word_ariths)
qed

lemma sint_of_int32:
  assumes "- 2147483648 \<le> k" "k < 2147483648"
  shows "sint (word_of_int k :: Int_t) = k"
  using assms by (simp add: sint_sbintrunc' signed_take_bit_int_eq_self)

lemma sint_eq_iff: "sint (a :: Int_t) = sint b \<longleftrightarrow> a = b"
  by (auto intro: signed_word_eqI)

subsection \<open>The index storage\<close>

lemma Set_default:
  "TArrayI_Set n TArrayI_default =
     (if 0 <s n then \<lparr>fN = n, fArray = Some (replicate (nat (sint n)) 0)\<rparr>
      else TArrayI_default)"
  by (auto simp: TArrayI_Set_def TArrayI_default_def cells_def word_sless_alt
                 sint_eq_iff [symmetric])

lemma fN_Set: "fN (TArrayI_Set n a) = (if n <s 0 then fN a else n)"
  by (simp add: TArrayI_Set_def)

lemma fN_Set_default:
  "fN (TArrayI_Set n TArrayI_default) = (if n <s 0 then 0 else n)"
  by (simp add: fN_Set) (simp add: TArrayI_default_def)

lemma assign_in_bounds:
  assumes "fArray a = Some xs" "0 \<le> sint k" "sint k < sint (fN a)"
  shows "TArrayI_assign a k v errs = Inr (a\<lparr>fArray := Some (xs[nat (sint k) := v])\<rparr>, errs)"
  using assms by (simp add: TArrayI_assign_def BoundsOk_def word_sless_alt word_sle_eq)

subsection \<open>The loop of the builder\<close>

lemma body_accepts:
  "BuildAcceptIndices_body c index s =
     (if accepts c index then
        (case TArrayI_assign (indices s) (acceptCounter s) index (reported s) of
           Inl f \<Rightarrow> Inl f
         | Inr (a, errs) \<Rightarrow>
             Inr \<lparr>indices = a, acceptCounter = acceptCounter s + 1, reported = errs\<rparr>)
      else Inr s)"
  by (simp add: BuildAcceptIndices_body_def accepts_def split_def)

lemma accepted_from_done: "\<not> i <s GetNEntries c \<Longrightarrow> accepted_from c i = []"
  by (simp add: accepted_from_def word_sless_alt)

lemma accepted_from_step:
  assumes "i <s GetNEntries c"
  shows "accepted_from c i = (if accepts c i then [i] else []) @ accepted_from c (i + 1)"
proof -
  have less: "sint i < sint (GetNEntries c)"
    using assms by (simp add: word_sless_alt)
  then have "[sint i .. sint (GetNEntries c) - 1]
               = sint i # [sint (i + 1) .. sint (GetNEntries c) - 1]"
    by (simp add: sint_succ [OF less] upto_rec1)
  then show ?thesis
    by (simp add: accepted_from_def)
qed

text \<open>With nothing left to accept, the loop leaves its state as it is.\<close>

lemma loop_nothing:
  "accepted_from c i = [] \<Longrightarrow> BuildAcceptIndices_loop c i s = Inr s"
proof (induction c i s rule: BuildAcceptIndices_loop.induct)
  case (1 c index s)
  show ?case
  proof (cases "index <s GetNEntries c")
    case True
    with "1.prems" have no: "\<not> accepts c index" and rest: "accepted_from c (index + 1) = []"
      by (auto simp: accepted_from_step split: if_splits)
    from no have "BuildAcceptIndices_body c index s = Inr s"
      by (simp add: body_accepts)
    with True "1.IH" [OF True this rest] show ?thesis
      by (simp add: BuildAcceptIndices_loop.simps [of c index s])
  next
    case False
    then show ?thesis
      by (simp add: BuildAcceptIndices_loop.simps [of c index s])
  qed
qed

text \<open>
  While the cells from the counter on suffice for what is left to accept, the loop
  stores the accepted positions there in increasing order, touches no other cell and
  reports no index out of bounds.
\<close>

lemma loop_fills:
  assumes "fArray (indices s) = Some xs"
    and "length xs = nat (sint (fN (indices s)))"
    and "0 \<le> sint (acceptCounter s)"
    and "sint (acceptCounter s) + int (length (accepted_from c i)) \<le> sint (fN (indices s))"
  shows "\<exists>s'. BuildAcceptIndices_loop c i s = Inr s'
           \<and> fN (indices s') = fN (indices s)
           \<and> fArray (indices s') =
               Some (take (nat (sint (acceptCounter s))) xs @ accepted_from c i
                     @ drop (nat (sint (acceptCounter s)) + length (accepted_from c i)) xs)
           \<and> sint (acceptCounter s') = sint (acceptCounter s) + int (length (accepted_from c i))
           \<and> reported s' = reported s"
  using assms
proof (induction c i s arbitrary: xs rule: BuildAcceptIndices_loop.induct)
  case (1 c index s)
  let ?k = "acceptCounter s"
  show ?case
  proof (cases "index <s GetNEntries c")
    case False
    then show ?thesis
      using "1.prems"
      by (simp add: accepted_from_done BuildAcceptIndices_loop.simps [of c index s])
  next
    case True
    note step = accepted_from_step [OF True]
    show ?thesis
    proof (cases "accepts c index")
      case False
      then have body: "BuildAcceptIndices_body c index s = Inr s"
        by (simp add: body_accepts)
      have same: "accepted_from c index = accepted_from c (index + 1)"
        using False step by simp
      from "1.IH" [OF True body "1.prems"(1,2,3)] "1.prems"(4) True body
      show ?thesis
        by (simp add: same BuildAcceptIndices_loop.simps [of c index s])
    next
      case acc: True
      have len: "length (accepted_from c index) = Suc (length (accepted_from c (index + 1)))"
        using acc step by simp
      have k_less: "sint ?k < sint (fN (indices s))"
        using "1.prems"(4) len by simp
      define s' where "s' = \<lparr>indices = (indices s)\<lparr>fArray := Some (xs[nat (sint ?k) := index])\<rparr>,
                               acceptCounter = ?k + 1, reported = reported s\<rparr>"
      have body: "BuildAcceptIndices_body c index s = Inr s'"
        using acc assign_in_bounds [OF "1.prems"(1) "1.prems"(3) k_less]
        by (simp add: body_accepts s'_def)
      have k': "sint (acceptCounter s') = sint ?k + 1"
        using sint_succ [OF k_less] by (simp add: s'_def)
      have nk: "nat (sint ?k) < length xs"
        using k_less "1.prems"(2,3) by simp
      have p1: "fArray (indices s') = Some (xs[nat (sint ?k) := index])"
        by (simp add: s'_def)
      have p2: "length (xs[nat (sint ?k) := index]) = nat (sint (fN (indices s')))"
        using "1.prems"(2) by (simp add: s'_def)
      have p3: "0 \<le> sint (acceptCounter s')"
        using k' "1.prems"(3) by simp
      have p4: "sint (acceptCounter s') + int (length (accepted_from c (index + 1)))
                  \<le> sint (fN (indices s'))"
        using "1.prems"(4) len k' by (simp add: s'_def)
      from "1.IH" [OF True body p1 p2 p3 p4]
      obtain t where t: "BuildAcceptIndices_loop c (index + 1) s' = Inr t"
        "fN (indices t) = fN (indices s')"
        "fArray (indices t) =
           Some (take (nat (sint (acceptCounter s'))) (xs[nat (sint ?k) := index])
                 @ accepted_from c (index + 1)
                 @ drop (nat (sint (acceptCounter s')) + length (accepted_from c (index + 1)))
                     (xs[nat (sint ?k) := index]))"
        "sint (acceptCounter t) = sint (acceptCounter s') + int (length (accepted_from c (index + 1)))"
        "reported t = reported s'"
        by blast
      have nat_k': "nat (sint (acceptCounter s')) = Suc (nat (sint ?k))"
        using k' "1.prems"(3) by simp
      have take_eq: "take (Suc (nat (sint ?k))) (xs[nat (sint ?k) := index])
                       = take (nat (sint ?k)) xs @ [index]"
        using nk by (simp add: take_Suc_conv_app_nth)
      have drop_eq: "drop (Suc (nat (sint ?k)) + length (accepted_from c (index + 1)))
                       (xs[nat (sint ?k) := index])
                     = drop (nat (sint ?k) + length (accepted_from c index)) xs"
        by (simp add: len)
      have "BuildAcceptIndices_loop c index s = Inr t"
        using True body t(1) by (simp add: BuildAcceptIndices_loop.simps [of c index s])
      moreover have "fN (indices t) = fN (indices s)"
        using t(2) by (simp add: s'_def)
      moreover have "fArray (indices t) =
               Some (take (nat (sint ?k)) xs @ accepted_from c index
                     @ drop (nat (sint ?k) + length (accepted_from c index)) xs)"
        using t(3) acc by (simp only: nat_k' take_eq drop_eq step) simp
      moreover have "sint (acceptCounter t) = sint ?k + int (length (accepted_from c index))"
        using t(4) k' len by simp
      moreover have "reported t = reported s"
        using t(5) by (simp add: s'_def)
      ultimately show ?thesis by blast
    qed
  qed
qed

lemma accepted_positions_from: "accepted_positions c = accepted_from c 0"
  by (simp add: accepted_positions_def positions_def accepted_from_def)

text \<open>The loop never changes the size of the storage.\<close>

lemma loop_keeps_size:
  "BuildAcceptIndices_loop c i s = Inr s' \<Longrightarrow> fN (indices s') = fN (indices s)"
proof (induction c i s rule: BuildAcceptIndices_loop.induct)
  case (1 c index s)
  show ?case
  proof (cases "index <s GetNEntries c")
    case False
    with "1.prems" show ?thesis
      by (simp add: BuildAcceptIndices_loop.simps [of c index s])
  next
    case True
    with "1.prems" obtain t where body: "BuildAcceptIndices_body c index s = Inr t"
      and rest: "BuildAcceptIndices_loop c (index + 1) t = Inr s'"
      by (auto simp: BuildAcceptIndices_loop.simps [of c index s] split: sum.splits)
    from body have "fN (indices t) = fN (indices s)"
      by (auto simp: body_accepts TArrayI_assign_def split: if_splits sum.splits option.splits)
    with "1.IH" [OF True body rest] show ?thesis by simp
  qed
qed

text \<open>
  When the collection reports at least as many accepted entries as it has, the builder
  ends without a fault and without an index out of bounds; the storage has the reported
  size and holds the accepted positions in increasing order, then zeros.
\<close>

lemma BuildAcceptIndices_enough:
  assumes v: "fkContainer v = Some c" "fAcceptIndices v = TArrayI_default"
    and enough: "int (length (accepted_positions c)) \<le> sint (GetNAcceptEntries c)"
  shows "\<exists>s. BuildAcceptIndices v = Inr s
           \<and> fN (indices s) = GetNAcceptEntries c
           \<and> cells (indices s) =
               accepted_positions c
               @ replicate (nat (sint (GetNAcceptEntries c)) - length (accepted_positions c)) 0
           \<and> reported s = []"
proof (cases "0 <s GetNAcceptEntries c")
  case True
  let ?h = "GetNAcceptEntries c"
  let ?s = "\<lparr>indices = TArrayI_Set ?h (fAcceptIndices v), acceptCounter = 0, reported = []\<rparr>"
  have a: "fArray (indices ?s) = Some (replicate (nat (sint ?h)) 0)"
    and b: "length (replicate (nat (sint ?h)) (0 :: Int_t)) = nat (sint (fN (indices ?s)))"
    and c: "0 \<le> sint (acceptCounter ?s)"
    and d: "sint (acceptCounter ?s) + int (length (accepted_from c 0)) \<le> sint (fN (indices ?s))"
    using True enough by (simp_all add: v Set_default accepted_positions_from)
  from loop_fills [OF a b c d] obtain t where
    t: "BuildAcceptIndices_loop c 0 ?s = Inr t" "fN (indices t) = fN (indices ?s)"
       "fArray (indices t) =
          Some (take (nat (sint (acceptCounter ?s))) (replicate (nat (sint ?h)) 0)
                @ accepted_from c 0
                @ drop (nat (sint (acceptCounter ?s)) + length (accepted_from c 0))
                    (replicate (nat (sint ?h)) 0))"
       "reported t = reported ?s"
    by blast
  have "BuildAcceptIndices v = Inr t"
    using t(1) by (simp add: BuildAcceptIndices_def v)
  moreover have "fN (indices t) = ?h"
    using t(2) True by (simp add: v Set_default)
  moreover have "cells (indices t) =
      accepted_positions c @ replicate (nat (sint ?h) - length (accepted_positions c)) 0"
    using t(3) by (simp add: cells_def accepted_positions_from)
  moreover have "reported t = []"
    using t(4) by simp
  ultimately show ?thesis by blast
next
  case False
  let ?h = "GetNAcceptEntries c"
  from False have "sint ?h \<le> 0"
    by (simp add: word_sless_alt)
  with enough have le: "int (length (accepted_positions c)) \<le> 0" and h0: "sint ?h = 0"
    by linarith+
  from le have none: "accepted_positions c = []"
    by simp
  from h0 have h: "?h = 0"
    using sint_eq_iff [of ?h 0] by simp
  have "BuildAcceptIndices v = Inr \<lparr>indices = TArrayI_default, acceptCounter = 0, reported = []\<rparr>"
    using none loop_nothing [of c 0]
    by (simp add: BuildAcceptIndices_def v Set_default h accepted_positions_from)
  then show ?thesis
    by (simp add: h none TArrayI_default_def cells_def)
qed

subsection \<open>The constructor\<close>

lemma ctor_all:
  "AliEmcalIterableContainerT_ctor cont False =
     Inr \<lparr>fkContainer = cont, fAcceptIndices = TArrayI_default, fUseAccepted = False\<rparr>"
  by (simp add: AliEmcalIterableContainerT_ctor_def)

lemma ctor_accepted:
  "AliEmcalIterableContainerT_ctor cont True =
     (case BuildAcceptIndices
             \<lparr>fkContainer = cont, fAcceptIndices = TArrayI_default, fUseAccepted = True\<rparr> of
        Inl f \<Rightarrow> Inl f
      | Inr s \<Rightarrow> Inr \<lparr>fkContainer = cont, fAcceptIndices = indices s, fUseAccepted = True\<rparr>)"
  by (simp add: AliEmcalIterableContainerT_ctor_def split: sum.splits)

subsection \<open>The positions of a collection\<close>

lemma sint_position:
  assumes "k \<in> set [0 .. sint (GetNEntries c) - 1]"
  shows "sint (word_of_int k :: Int_t) = k"
proof -
  from assms have "0 \<le> k" "k < sint (GetNEntries c)" by simp_all
  with sint_range32 [of "GetNEntries c"] show ?thesis
    by (intro sint_of_int32) linarith+
qed

lemma set_positions: "set (positions c) = {p. 0 \<le>s p \<and> p <s GetNEntries c}"
proof (intro set_eqI iffI)
  fix p
  assume "p \<in> set (positions c)"
  then obtain k where k: "k \<in> set [0 .. sint (GetNEntries c) - 1]" and p: "p = word_of_int k"
    by (auto simp: positions_def)
  from k sint_position [OF k] show "p \<in> {p. 0 \<le>s p \<and> p <s GetNEntries c}"
    by (simp add: p word_sle_eq word_sless_alt)
next
  fix p
  assume "p \<in> {p. 0 \<le>s p \<and> p <s GetNEntries c}"
  then have "sint p \<in> set [0 .. sint (GetNEntries c) - 1]"
    by (simp add: word_sle_eq word_sless_alt)
  then have "word_of_int (sint p) \<in> set (positions c)"
    unfolding positions_def by (simp only: set_map) (rule imageI)
  then show "p \<in> set (positions c)" by simp
qed

lemma sorted_positions: "sorted_wrt (<s) (positions c)"
proof -
  have "sorted_wrt (<) [0 .. sint (GetNEntries c) - 1]"
    by (simp add: strict_sorted_iff)
  then have "sorted_wrt (\<lambda>a b. (word_of_int a :: Int_t) <s word_of_int b)
               [0 .. sint (GetNEntries c) - 1]"
  proof (rule sorted_wrt_mono_rel [rotated])
    fix a b
    assume "a \<in> set [0 .. sint (GetNEntries c) - 1]" "b \<in> set [0 .. sint (GetNEntries c) - 1]"
      and "a < b"
    then show "(word_of_int a :: Int_t) <s word_of_int b"
      by (simp only: word_sless_alt sint_position)
  qed
  then show ?thesis
    by (simp add: positions_def sorted_wrt_map)
qed

lemma sorted_accepted_positions: "sorted_wrt (<s) (accepted_positions c)"
  unfolding accepted_positions_def by (rule sorted_wrt_filter [OF sorted_positions])

lemma length_positions: "length (positions c) = nat (sint (GetNEntries c))"
  by (simp add: positions_def)

subsection \<open>The storage stays well-formed\<close>

lemma wf_Set_default: "wf_TArrayI (TArrayI_Set n TArrayI_default)"
  by (simp add: Set_default wf_TArrayI_def word_sless_alt) (simp add: TArrayI_default_def)

lemma wf_assign:
  "TArrayI_assign a i v errs = Inr (a', errs') \<Longrightarrow> wf_TArrayI a \<Longrightarrow> wf_TArrayI a'"
  by (auto simp: TArrayI_assign_def wf_TArrayI_def split: option.splits if_splits)

lemma wf_body:
  "BuildAcceptIndices_body c i s = Inr s' \<Longrightarrow> wf_TArrayI (indices s) \<Longrightarrow> wf_TArrayI (indices s')"
  by (auto simp: body_accepts split: if_splits sum.splits dest: wf_assign)

lemma wf_loop:
  "BuildAcceptIndices_loop c i s = Inr s' \<Longrightarrow> wf_TArrayI (indices s) \<Longrightarrow> wf_TArrayI (indices s')"
proof (induction c i s rule: BuildAcceptIndices_loop.induct)
  case (1 c index s)
  show ?case
  proof (cases "index <s GetNEntries c")
    case False
    with "1.prems" show ?thesis
      by (simp add: BuildAcceptIndices_loop.simps [of c index s])
  next
    case True
    with "1.prems"(1) obtain t where body: "BuildAcceptIndices_body c index s = Inr t"
      and rest: "BuildAcceptIndices_loop c (index + 1) t = Inr s'"
      by (auto simp: BuildAcceptIndices_loop.simps [of c index s] split: sum.splits)
    from "1.IH" [OF True body rest wf_body [OF body "1.prems"(2)]] show ?thesis .
  qed
qed

text \<open>What the standard constructor establishes.\<close>

lemma ctor_view:
  assumes "AliEmcalIterableContainerT_ctor (Some c) useAccept = Inr v"
  shows "fkContainer v = Some c \<and> fUseAccepted v = useAccept \<and> wf_TArrayI (fAcceptIndices v)"
proof (cases useAccept)
  case False
  with assms show ?thesis
    by (auto simp: ctor_all wf_TArrayI_def TArrayI_default_def)
next
  case True
  with assms obtain s where s: "BuildAcceptIndices_loop c 0
        \<lparr>indices = TArrayI_Set (GetNAcceptEntries c) TArrayI_default,
         acceptCounter = 0, reported = []\<rparr> = Inr s"
    and v: "v = \<lparr>fkContainer = Some c, fAcceptIndices = indices s, fUseAccepted = True\<rparr>"
    by (auto simp: ctor_accepted BuildAcceptIndices_def split: sum.splits)
  from wf_loop [OF s] have "wf_TArrayI (indices s)"
    by (simp add: wf_Set_default)
  with True show ?thesis by (simp add: v)
qed

subsection \<open>Element access\<close>

lemma GetEntries_view:
  assumes "fkContainer v = Some c"
  shows "GetEntries v = Inr (if fUseAccepted v then fN (fAcceptIndices v) else GetNEntries c)"
  using assms by (simp add: GetEntries_def GetSize_def)

lemma op_index_out:
  assumes "fkContainer v = Some c" "GetEntries v = Inr n" "i <s 0 \<or> n \<le>s i"
  shows "op_index v i = Inr None"
  using assms by (auto simp: op_index_def)

lemma at_in_bounds:
  assumes "wf_TArrayI a" "0 \<le>s i" "i <s fN a"
  shows "TArrayI_at a i = Inr (cells a ! nat (sint i)) \<and> nat (sint i) < length (cells a)"
  using assms
  by (auto simp: TArrayI_at_def BoundsOk_def wf_TArrayI_def cells_def word_sless_alt word_sle_eq
           split: option.splits)

lemma op_index_in:
  assumes "fkContainer v = Some c" "wf_TArrayI (fAcceptIndices v)"
    and "GetEntries v = Inr n" "0 \<le>s i" "i <s n"
  shows "op_index v i =
           Inr (if fUseAccepted v then cont_index c (cells (fAcceptIndices v) ! nat (sint i))
                else cont_index c i)"
proof (cases "fUseAccepted v")
  case False
  with assms show ?thesis
    by (auto simp: op_index_def word_sless_alt word_sle_eq)
next
  case True
  with assms have "i <s fN (fAcceptIndices v)"
    by (simp add: GetEntries_def GetSize_def)
  from at_in_bounds [OF assms(2,4) this] True assms show ?thesis
    by (auto simp: op_index_def word_sless_alt word_sle_eq)
qed

subsection \<open>The builder looks at the verdicts only\<close>

lemma body_same_verdict:
  "accepts c i = accepts c' i \<Longrightarrow> BuildAcceptIndices_body c i s = BuildAcceptIndices_body c' i s"
  by (simp add: body_accepts)

lemma loop_same_verdicts:
  assumes "GetNEntries c' = GetNEntries c"
    and "\<And>p. 0 \<le>s p \<Longrightarrow> p <s GetNEntries c \<Longrightarrow> accepts c' p = accepts c p"
    and "0 \<le>s i"
  shows "BuildAcceptIndices_loop c' i s = BuildAcceptIndices_loop c i s"
  using assms
proof (induction c i s rule: BuildAcceptIndices_loop.induct)
  case (1 c index s)
  note eq = "1.prems"(1) and verdicts = "1.prems"(2) and pos = "1.prems"(3)
  show ?case
  proof (cases "index <s GetNEntries c")
    case False
    then show ?thesis
      using eq
      by (simp add: BuildAcceptIndices_loop.simps [of c index s]
                    BuildAcceptIndices_loop.simps [of c' index s])
  next
    case True
    then have less: "sint index < sint (GetNEntries c)"
      by (simp add: word_sless_alt)
    have body: "BuildAcceptIndices_body c' index s = BuildAcceptIndices_body c index s"
      using verdicts [OF pos True] by (rule body_same_verdict)
    have next_ok: "0 \<le>s index + 1"
      using pos sint_succ [OF less] by (simp add: word_sle_eq)
    show ?thesis
    proof (cases "BuildAcceptIndices_body c index s")
      case (Inl f)
      with True body eq show ?thesis
        by (simp add: BuildAcceptIndices_loop.simps [of c index s]
                      BuildAcceptIndices_loop.simps [of c' index s])
    next
      case (Inr t)
      from "1.IH" [OF True Inr eq verdicts next_ok]
      have "BuildAcceptIndices_loop c' (index + 1) t = BuildAcceptIndices_loop c (index + 1) t"
        by simp
      with True body Inr eq show ?thesis
        by (simp add: BuildAcceptIndices_loop.simps [of c index s]
                      BuildAcceptIndices_loop.simps [of c' index s])
    qed
  qed
qed

subsection \<open>The traversal loop\<close>

lemma traverse_stop:
  "fCurrent iter = fCurrent stop \<Longrightarrow> traverse iter stop visited = Some (Inr visited)"
  by (subst traverse.simps) (simp add: op_neq_def)

lemma traverse_step:
  "fCurrent iter \<noteq> fCurrent stop \<Longrightarrow> op_deref iter = Inr x \<Longrightarrow>
     traverse iter stop visited = traverse (op_incr iter) stop (visited @ [x])"
  by (subst traverse.simps) (simp add: op_neq_def)

text \<open>
  A forward iterator at a position \<open>p\<close> of \<open>[0, n]\<close> reaches the position \<open>n\<close> after
  visiting the positions from \<open>p\<close> up to \<open>n - 1\<close>; a backward iterator at a position
  \<open>p\<close> of \<open>[-1, n)\<close> reaches the position -1 after visiting the positions from \<open>p\<close>
  down to 0.
\<close>

lemma traverse_forward:
  fixes f :: "Int_t \<Rightarrow> 'a option"
  assumes elems: "\<And>i. 0 \<le> sint i \<Longrightarrow> sint i < sint n \<Longrightarrow> op_index v i = Inr (f i)"
    and "0 \<le> sint p" "sint p \<le> sint n"
  shows "traverse (iterator_ctor v p True) (iterator_ctor v n True) visited
           = Some (Inr (visited @ map (\<lambda>k. f (word_of_int k)) [sint p .. sint n - 1]))"
  using assms(2,3)
proof (induction "nat (sint n - sint p)" arbitrary: p visited)
  case 0
  then have "sint p = sint n" by simp
  then have "p = n" by (simp add: sint_eq_iff)
  then show ?case
    by (simp add: traverse_stop iterator_ctor_def)
next
  case (Suc d)
  then have less: "sint p < sint n" by linarith
  then have neq: "p \<noteq> n" by auto
  have succ: "sint (p + 1) = sint p + 1"
    by (rule sint_succ [OF less])
  have deref: "op_deref (iterator_ctor v p True) = Inr (f p)"
    using elems [OF Suc.prems(1) less] by (simp add: op_deref_def iterator_ctor_def)
  have incr: "op_incr (iterator_ctor v p True) = iterator_ctor v (p + 1) True"
    by (simp add: op_incr_def iterator_ctor_def)
  have "d = nat (sint n - sint (p + 1))" "0 \<le> sint (p + 1)" "sint (p + 1) \<le> sint n"
    using Suc.hyps(2) Suc.prems less succ by linarith+
  from Suc.hyps(1) [OF this, of "visited @ [f p]"]
  have "traverse (iterator_ctor v (p + 1) True) (iterator_ctor v n True) (visited @ [f p])
          = Some (Inr (visited @ f p # map (\<lambda>k. f (word_of_int k)) [sint p + 1 .. sint n - 1]))"
    by (simp add: succ)
  moreover have "[sint p .. sint n - 1] = sint p # [sint p + 1 .. sint n - 1]"
    using less by (simp add: upto_rec1)
  ultimately show ?case
    using traverse_step [of "iterator_ctor v p True" "iterator_ctor v n True" "f p" visited]
      neq deref incr
    by (simp add: iterator_ctor_def)
qed

lemma traverse_backward:
  fixes f :: "Int_t \<Rightarrow> 'a option"
  assumes elems: "\<And>i. 0 \<le> sint i \<Longrightarrow> sint i < sint n \<Longrightarrow> op_index v i = Inr (f i)"
    and "- 1 \<le> sint p" "sint p < sint n"
  shows "traverse (iterator_ctor v p False) (iterator_ctor v (- 1) False) visited
           = Some (Inr (visited @ rev (map (\<lambda>k. f (word_of_int k)) [0 .. sint p])))"
  using assms(2,3)
proof (induction "nat (sint p + 1)" arbitrary: p visited)
  case 0
  then have "sint p = sint (- 1 :: Int_t)" by simp
  then have "p = - 1" by (simp only: sint_eq_iff)
  then show ?case
    by (simp add: traverse_stop iterator_ctor_def)
next
  case (Suc d)
  then have pos: "0 \<le> sint p" by linarith
  then have neq: "p \<noteq> - 1" by auto
  have "sint (- 1 :: Int_t) < sint p"
    using pos by simp
  then have pred: "sint (p - 1) = sint p - 1"
    by (rule sint_pred)
  have deref: "op_deref (iterator_ctor v p False) = Inr (f p)"
    using elems [OF pos Suc.prems(2)] by (simp add: op_deref_def iterator_ctor_def)
  have incr: "op_incr (iterator_ctor v p False) = iterator_ctor v (p - 1) False"
    by (simp add: op_incr_def iterator_ctor_def)
  have "d = nat (sint (p - 1) + 1)" "- 1 \<le> sint (p - 1)" "sint (p - 1) < sint n"
    using Suc.hyps(2) Suc.prems pos pred by linarith+
  from Suc.hyps(1) [OF this, of "visited @ [f p]"]
  have "traverse (iterator_ctor v (p - 1) False) (iterator_ctor v (- 1) False) (visited @ [f p])
          = Some (Inr (visited @ f p # rev (map (\<lambda>k. f (word_of_int k)) [0 .. sint p - 1])))"
    by (simp add: pred)
  moreover have "[0 .. sint p] = [0 .. sint p - 1] @ [sint p]"
    using pos by (simp add: upto_rec2)
  ultimately show ?case
    using traverse_step [of "iterator_ctor v p False" "iterator_ctor v (- 1) False" "f p" visited]
      neq deref incr
    by (simp add: iterator_ctor_def)
qed

subsection \<open>Where the model faults\<close>

text \<open>
  A view made by the default constructor has no collection: asking it for an entry at a
  non-negative index goes through the null pointer. A collection that reports no accepted
  entry and has some leaves the storage without cells, and the first store goes through
  its null pointer.
\<close>

lemma default_view_faults:
  "op_index (AliEmcalIterableContainerT_default :: Int_t AliEmcalIterableContainerT) 0
     = Inl NullPointer
   \<and> op_index (AliEmcalIterableContainerT_default :: Int_t AliEmcalIterableContainerT) (- 1)
     = Inr None"
  by code_simp

lemma zero_reporting_faults:
  "AliEmcalIterableContainerT_ctor (Some zero_reporting) True = Inl NullPointer"
  by code_simp

section \<open>The number of entries of a view\<close>

text \<open>
  Claim C1, as amended. A view over all entries counts \<^verbatim>\<open>GetNEntries()\<close> entries. A view
  over the accepted entries counts the size of its index storage, which is what the
  collection reports as \<^verbatim>\<open>GetNAcceptEntries()\<close> (0 when that is negative): the number of
  positions the predicate accepts when the collection reports exactly that number, and
  not regardless of what it reports.
\<close>

theorem count_of_view:
  "(\<exists>v. AliEmcalIterableContainerT_ctor (Some c) False = Inr v
        \<and> GetEntries v = Inr (GetNEntries c))
   \<and> (\<forall>v. AliEmcalIterableContainerT_ctor (Some c) True = Inr v \<longrightarrow>
          GetEntries v =
            Inr (if GetNAcceptEntries c <s 0 then 0 else GetNAcceptEntries c))
   \<and> (sint (GetNAcceptEntries c) = int (length (accepted_positions c)) \<longrightarrow>
        (\<exists>v n. AliEmcalIterableContainerT_ctor (Some c) True = Inr v
           \<and> GetEntries v = Inr n \<and> sint n = int (length (accepted_positions c))))"
proof (intro conjI allI impI)
  show "\<exists>v. AliEmcalIterableContainerT_ctor (Some c) False = Inr v
          \<and> GetEntries v = Inr (GetNEntries c)"
    by (simp add: ctor_all GetEntries_def)
next
  fix v
  assume "AliEmcalIterableContainerT_ctor (Some c) True = Inr v"
  then obtain s where s: "BuildAcceptIndices_loop c 0
        \<lparr>indices = TArrayI_Set (GetNAcceptEntries c) TArrayI_default,
         acceptCounter = 0, reported = []\<rparr> = Inr s"
    and v: "v = \<lparr>fkContainer = Some c, fAcceptIndices = indices s, fUseAccepted = True\<rparr>"
    by (auto simp: ctor_accepted BuildAcceptIndices_def split: sum.splits)
  from loop_keeps_size [OF s]
  have "fN (indices s) = (if GetNAcceptEntries c <s 0 then 0 else GetNAcceptEntries c)"
    by (simp add: fN_Set_default)
  then show "GetEntries v = Inr (if GetNAcceptEntries c <s 0 then 0 else GetNAcceptEntries c)"
    by (simp add: v GetEntries_def GetSize_def)
next
  assume exact: "sint (GetNAcceptEntries c) = int (length (accepted_positions c))"
  let ?v = "\<lparr>fkContainer = Some c, fAcceptIndices = TArrayI_default, fUseAccepted = True\<rparr>"
  from BuildAcceptIndices_enough [of ?v c] exact
  obtain s where "BuildAcceptIndices ?v = Inr s" "fN (indices s) = GetNAcceptEntries c"
    by auto
  then show "\<exists>v n. AliEmcalIterableContainerT_ctor (Some c) True = Inr v
           \<and> GetEntries v = Inr n \<and> sint n = int (length (accepted_positions c))"
    using exact by (simp add: ctor_accepted GetEntries_def GetSize_def)
qed

text \<open>
  The scenario reports its three accepted positions: the view over the accepted entries
  counts three, the view over all entries five.
\<close>

theorem count_of_view_witness:
  "sint (GetNAcceptEntries scenario) = int (length (accepted_positions scenario))
   \<and> (\<exists>v. AliEmcalIterableContainerT_ctor (Some scenario) True = Inr v
         \<and> GetEntries v = Inr 3 \<and> length (accepted_positions scenario) = 3)
   \<and> (\<exists>v. AliEmcalIterableContainerT_ctor (Some scenario) False = Inr v
         \<and> GetEntries v = Inr 5)"
proof -
  have exact: "sint (GetNAcceptEntries scenario) = int (length (accepted_positions scenario))"
    by code_simp
  have three: "length (accepted_positions scenario) = 3"
    by code_simp
  have counts: "GetNEntries scenario = 5" "GetNAcceptEntries scenario = 3"
    by (simp_all add: scenario_def)
  from count_of_view [of scenario] exact
  obtain v n where "AliEmcalIterableContainerT_ctor (Some scenario) True = Inr v"
    "GetEntries v = Inr n" "sint n = int (length (accepted_positions scenario))"
    by blast
  moreover from this(1) count_of_view [of scenario] have "GetEntries v = Inr 3"
    by (simp add: counts word_sless_alt)
  moreover from count_of_view [of scenario]
  have "\<exists>v. AliEmcalIterableContainerT_ctor (Some scenario) False = Inr v
          \<and> GetEntries v = Inr 5"
    by (simp add: counts)
  ultimately show ?thesis
    using exact three by blast
qed

text \<open>
  Claim C1 as stated fails on a collection of three entries that accepts position 1 only
  and reports two accepted entries: the view counts two entries, not one.
\<close>

theorem count_of_view_counterexample:
  "map_sum id GetEntries (AliEmcalIterableContainerT_ctor (Some over_reporting) True)
     = Inr (Inr 2)
   \<and> length (accepted_positions over_reporting) = 1"
  by code_simp

section \<open>The index storage of the builder\<close>

text \<open>
  Claim C2, as amended. The builder sizes the storage once, from what the collection
  reports, and never resizes it: whenever it returns, the size of the storage is
  \<^verbatim>\<open>GetNAcceptEntries()\<close> (0 when that is negative), whatever the predicate accepts. For
  every collection that reports at least as many accepted entries as the predicate
  accepts (in particular one that reports more), the construction ends without a fault,
  the storage has the reported size, which is its number of cells and at least the
  number of accepted positions, and every store lands within bounds: no index is
  reported out of bounds.
\<close>

theorem storage_suffices:
  "(\<forall>s. BuildAcceptIndices
            \<lparr>fkContainer = Some c, fAcceptIndices = TArrayI_default,
             fUseAccepted = True\<rparr> = Inr s \<longrightarrow>
          GetSize (indices s)
            = (if GetNAcceptEntries c <s 0 then 0 else GetNAcceptEntries c))
   \<and> (int (length (accepted_positions c)) \<le> sint (GetNAcceptEntries c) \<longrightarrow>
        (\<exists>s v. BuildAcceptIndices
                  \<lparr>fkContainer = Some c, fAcceptIndices = TArrayI_default,
                   fUseAccepted = True\<rparr> = Inr s
           \<and> AliEmcalIterableContainerT_ctor (Some c) True = Inr v
           \<and> fAcceptIndices v = indices s
           \<and> GetSize (indices s) = GetNAcceptEntries c
           \<and> int (length (accepted_positions c)) \<le> sint (GetSize (indices s))
           \<and> int (length (cells (indices s))) = sint (GetSize (indices s))
           \<and> reported s = []))"
proof (intro conjI allI impI)
  fix s
  assume "BuildAcceptIndices
            \<lparr>fkContainer = Some c, fAcceptIndices = TArrayI_default,
             fUseAccepted = True\<rparr> = Inr s"
  then have "BuildAcceptIndices_loop c 0
        \<lparr>indices = TArrayI_Set (GetNAcceptEntries c) TArrayI_default,
         acceptCounter = 0, reported = []\<rparr> = Inr s"
    by (simp add: BuildAcceptIndices_def)
  from loop_keeps_size [OF this]
  show "GetSize (indices s) = (if GetNAcceptEntries c <s 0 then 0 else GetNAcceptEntries c)"
    by (simp add: fN_Set_default GetSize_def)
next
  assume enough: "int (length (accepted_positions c)) \<le> sint (GetNAcceptEntries c)"
  let ?v = "\<lparr>fkContainer = Some c, fAcceptIndices = TArrayI_default, fUseAccepted = True\<rparr>"
  from BuildAcceptIndices_enough [of ?v c] enough
  obtain s where s: "BuildAcceptIndices ?v = Inr s" "fN (indices s) = GetNAcceptEntries c"
    "cells (indices s) =
       accepted_positions c
       @ replicate (nat (sint (GetNAcceptEntries c)) - length (accepted_positions c)) 0"
    "reported s = []"
    by auto
  have "int (length (cells (indices s))) = sint (GetSize (indices s))"
    using enough by (simp add: s GetSize_def)
  with s enough
  show "\<exists>s v. BuildAcceptIndices ?v = Inr s
           \<and> AliEmcalIterableContainerT_ctor (Some c) True = Inr v
           \<and> fAcceptIndices v = indices s
           \<and> GetSize (indices s) = GetNAcceptEntries c
           \<and> int (length (accepted_positions c)) \<le> sint (GetSize (indices s))
           \<and> int (length (cells (indices s))) = sint (GetSize (indices s))
           \<and> reported s = []"
    by (simp add: ctor_accepted GetSize_def)
qed

text \<open>
  The collection that reports two accepted entries and has one: the storage has two
  cells, not one. The collection that reports one and has three: the builder returns
  with a storage of one cell.
\<close>

theorem storage_suffices_witness:
  "int (length (accepted_positions over_reporting)) \<le> sint (GetNAcceptEntries over_reporting)
   \<and> (\<exists>s v. BuildAcceptIndices
            \<lparr>fkContainer = Some over_reporting, fAcceptIndices = TArrayI_default,
             fUseAccepted = True\<rparr> = Inr s
     \<and> AliEmcalIterableContainerT_ctor (Some over_reporting) True = Inr v
     \<and> fAcceptIndices v = indices s
     \<and> GetSize (indices s) = 2
     \<and> length (accepted_positions over_reporting) = 1
     \<and> int (length (cells (indices s))) = sint (GetSize (indices s))
     \<and> reported s = [])
   \<and> (\<exists>s. BuildAcceptIndices
            \<lparr>fkContainer = Some under_reporting, fAcceptIndices = TArrayI_default,
             fUseAccepted = True\<rparr> = Inr s
     \<and> GetSize (indices s) = 1
     \<and> length (accepted_positions under_reporting) = 3)"
proof -
  have enough: "int (length (accepted_positions over_reporting))
                  \<le> sint (GetNAcceptEntries over_reporting)"
    by code_simp
  have one: "length (accepted_positions over_reporting) = 1"
    and three: "length (accepted_positions under_reporting) = 3"
    by code_simp+
  have hints: "GetNAcceptEntries over_reporting = 2" "GetNAcceptEntries under_reporting = 1"
    by (simp_all add: over_reporting_def under_reporting_def)
  from storage_suffices [of over_reporting] enough
  obtain t w where "BuildAcceptIndices
            \<lparr>fkContainer = Some over_reporting, fAcceptIndices = TArrayI_default,
             fUseAccepted = True\<rparr> = Inr t"
    "AliEmcalIterableContainerT_ctor (Some over_reporting) True = Inr w"
    "fAcceptIndices w = indices t"
    "GetSize (indices t) = GetNAcceptEntries over_reporting"
    "int (length (cells (indices t))) = sint (GetSize (indices t))"
    "reported t = []"
    by blast
  then have over: "\<exists>s v. BuildAcceptIndices
            \<lparr>fkContainer = Some over_reporting, fAcceptIndices = TArrayI_default,
             fUseAccepted = True\<rparr> = Inr s
     \<and> AliEmcalIterableContainerT_ctor (Some over_reporting) True = Inr v
     \<and> fAcceptIndices v = indices s
     \<and> GetSize (indices s) = 2
     \<and> length (accepted_positions over_reporting) = 1
     \<and> int (length (cells (indices s))) = sint (GetSize (indices s))
     \<and> reported s = []"
    using one by (simp add: hints)
  obtain s where s: "BuildAcceptIndices
            \<lparr>fkContainer = Some under_reporting, fAcceptIndices = TArrayI_default,
             fUseAccepted = True\<rparr> = Inr s"
    by (cases "BuildAcceptIndices
            \<lparr>fkContainer = Some under_reporting, fAcceptIndices = TArrayI_default,
             fUseAccepted = True\<rparr>") (code_simp, blast)
  with storage_suffices [of under_reporting] have "GetSize (indices s) = 1"
    by (simp add: hints word_sless_alt)
  with s three have under: "\<exists>s. BuildAcceptIndices
            \<lparr>fkContainer = Some under_reporting, fAcceptIndices = TArrayI_default,
             fUseAccepted = True\<rparr> = Inr s
     \<and> GetSize (indices s) = 1
     \<and> length (accepted_positions under_reporting) = 3"
    by blast
  from enough over under show ?thesis
    by blast
qed

text \<open>
  Claim C2 as stated fails on the collection that reports one accepted entry and has
  three: the storage has one cell, and the stores at the indices 1 and 2 are reported out
  of bounds.
\<close>

theorem storage_suffices_counterexample:
  "map_sum id (\<lambda>s. (GetSize (indices s), length (cells (indices s)), reported s))
     (BuildAcceptIndices
        \<lparr>fkContainer = Some under_reporting, fAcceptIndices = TArrayI_default,
         fUseAccepted = True\<rparr>) = Inr (1, 1, [1, 2])
   \<and> length (accepted_positions under_reporting) = 3"
  by code_simp

section \<open>The stored sequence of accepted indices\<close>

text \<open>
  Claim C3, as amended. For every collection that reports exactly the number of positions
  its predicate accepts, the view over the accepted entries stores exactly the accepted
  positions of \<open>[0, count())\<close> in increasing order: the stored sequence is strictly
  increasing, a subsequence of the positions, its elements are the accepted positions,
  and its length is at most the reported number.
\<close>

theorem accepted_indices_exact:
  assumes "sint (GetNAcceptEntries c) = int (length (accepted_positions c))"
  shows "\<exists>v. AliEmcalIterableContainerT_ctor (Some c) True = Inr v
           \<and> cells (fAcceptIndices v) = accepted_positions c
           \<and> sorted_wrt (<s) (cells (fAcceptIndices v))
           \<and> subseq (cells (fAcceptIndices v)) (positions c)
           \<and> set (cells (fAcceptIndices v))
               = {p. 0 \<le>s p \<and> p <s GetNEntries c \<and> accepts c p}
           \<and> int (length (cells (fAcceptIndices v))) \<le> sint (GetNAcceptEntries c)"
proof -
  let ?v = "\<lparr>fkContainer = Some c, fAcceptIndices = TArrayI_default, fUseAccepted = True\<rparr>"
  from BuildAcceptIndices_enough [of ?v c] assms
  obtain s where s: "BuildAcceptIndices ?v = Inr s"
    "cells (indices s) = accepted_positions c"
    by auto
  have "set (accepted_positions c) = {p. 0 \<le>s p \<and> p <s GetNEntries c \<and> accepts c p}"
    using set_positions [of c] by (auto simp: accepted_positions_def)
  moreover have "subseq (accepted_positions c) (positions c)"
    by (simp add: accepted_positions_def)
  ultimately show ?thesis
    using s assms sorted_accepted_positions [of c]
    by (simp add: ctor_accepted)
qed

text \<open>The scenario stores the positions 1, 3 and 4.\<close>

theorem accepted_indices_exact_witness:
  "\<exists>v. AliEmcalIterableContainerT_ctor (Some scenario) True = Inr v
     \<and> cells (fAcceptIndices v) = accepted_positions scenario
     \<and> sorted_wrt (<s) (cells (fAcceptIndices v))
     \<and> subseq (cells (fAcceptIndices v)) (positions scenario)
     \<and> set (cells (fAcceptIndices v))
         = {p. 0 \<le>s p \<and> p <s GetNEntries scenario \<and> accepts scenario p}
     \<and> int (length (cells (fAcceptIndices v))) \<le> sint (GetNAcceptEntries scenario)"
proof -
  have "sint (GetNAcceptEntries scenario) = int (length (accepted_positions scenario))"
    by code_simp
  then show ?thesis
    by (rule accepted_indices_exact)
qed

text \<open>
  Claim C3 as stated fails on the collection of three entries that accepts position 1
  only and reports two: the stored sequence is 1, 0, which is not increasing and holds
  position 0, which the predicate rejects.
\<close>

theorem accepted_indices_exact_counterexample:
  "map_sum id (\<lambda>v. cells (fAcceptIndices v))
     (AliEmcalIterableContainerT_ctor (Some over_reporting) True) = Inr [1, 0]
   \<and> accepted_positions over_reporting = [1]
   \<and> \<not> sorted_wrt (<s) [1, 0 :: Int_t]
   \<and> \<not> accepts over_reporting 0"
  by code_simp

section \<open>Element access\<close>

text \<open>
  Claim C4. For a view made by the standard constructor over a collection, in either
  mode, and a logical index \<open>i\<close> within \<open>[0, count())\<close>: a view over the accepted entries
  returns the element of the collection at the position stored in cell \<open>i\<close> of
  \<^verbatim>\<open>fAcceptIndices\<close> (and the storage has such a cell), and a view over all entries
  returns the element of the collection at position \<open>i\<close>.
\<close>

theorem elementAt_in_bounds:
  assumes "AliEmcalIterableContainerT_ctor (Some c) useAccept = Inr v"
    and "GetEntries v = Inr n" "0 \<le>s i" "i <s n"
  shows "if useAccept then
           nat (sint i) < length (cells (fAcceptIndices v))
           \<and> op_index v i = Inr (cont_index c (cells (fAcceptIndices v) ! nat (sint i)))
         else op_index v i = Inr (cont_index c i)"
proof -
  note view = ctor_view [OF assms(1)]
  show ?thesis
  proof (cases useAccept)
    case False
    with op_index_in [of v c n i] view assms(2-4) show ?thesis by simp
  next
    case True
    with view assms(2,4) have "i <s fN (fAcceptIndices v)"
      by (simp add: GetEntries_def GetSize_def)
    with at_in_bounds [of "fAcceptIndices v" i] view assms(3)
    have "nat (sint i) < length (cells (fAcceptIndices v))" by simp
    with op_index_in [of v c n i] view assms(2-4) True show ?thesis by simp
  qed
qed

text \<open>In the scenario, the logical index 2 of the accepted view is position 4.\<close>

theorem elementAt_in_bounds_witness:
  "\<exists>v. AliEmcalIterableContainerT_ctor (Some scenario) True = Inr v
     \<and> GetEntries v = Inr 3
     \<and> nat (sint (2 :: Int_t)) < length (cells (fAcceptIndices v))
     \<and> op_index v 2 = Inr (cont_index scenario (cells (fAcceptIndices v) ! nat (sint (2 :: Int_t))))
     \<and> cells (fAcceptIndices v) ! nat (sint (2 :: Int_t)) = 4"
proof -
  define v where "v = \<lparr>fkContainer = Some scenario, fAcceptIndices = \<lparr>fN = 3, fArray = Some [1, 3, 4]\<rparr>,
                         fUseAccepted = True\<rparr>"
  have c: "AliEmcalIterableContainerT_ctor (Some scenario) True = Inr v"
    unfolding v_def by code_simp
  have n: "GetEntries v = Inr 3"
    unfolding v_def by code_simp
  have "(0 :: Int_t) \<le>s 2" "(2 :: Int_t) <s 3"
    by (simp_all add: word_sle_eq word_sless_alt)
  from elementAt_in_bounds [OF c n this] c n show ?thesis
    by (simp add: v_def cells_def)
qed

text \<open>
  Claim C5. For a view over a collection, in either mode, \<^verbatim>\<open>GetEntries()\<close> returns a
  number, and for every index below 0 or not below that number both \<^verbatim>\<open>operator[]\<close> and
  the dereference of an iterator at that position, forward or backward, return the null
  pointer and do not fault.
\<close>

theorem elementAt_out_of_bounds:
  assumes "fkContainer v = Some c"
  shows "\<exists>n. GetEntries v = Inr n
           \<and> (i <s 0 \<or> n \<le>s i \<longrightarrow>
                op_index v i = Inr None \<and> op_deref (iterator_ctor v i forward) = Inr None)"
  using assms op_index_out [OF assms, of _ i]
  by (auto simp: GetEntries_view op_deref_def iterator_ctor_def)

text \<open>The accepted view of the scenario at the logical index 3, its number of entries.\<close>

theorem elementAt_out_of_bounds_witness:
  "GetEntries \<lparr>fkContainer = Some scenario, fAcceptIndices = \<lparr>fN = 3, fArray = Some [1, 3, 4]\<rparr>,
                fUseAccepted = True\<rparr> = Inr (3 :: Int_t)
   \<and> (3 :: Int_t) \<le>s 3
   \<and> op_index \<lparr>fkContainer = Some scenario, fAcceptIndices = \<lparr>fN = 3, fArray = Some [1, 3, 4]\<rparr>,
                 fUseAccepted = True\<rparr> 3 = Inr None
   \<and> op_deref (iterator_ctor
         \<lparr>fkContainer = Some scenario, fAcceptIndices = \<lparr>fN = 3, fArray = Some [1, 3, 4]\<rparr>,
          fUseAccepted = True\<rparr> 3 True) = Inr None"
proof -
  let ?v = "\<lparr>fkContainer = Some scenario, fAcceptIndices = \<lparr>fN = 3, fArray = Some [1, 3, 4]\<rparr>,
             fUseAccepted = True\<rparr>"
  have n: "GetEntries ?v = Inr 3"
    by (simp add: GetEntries_def GetSize_def)
  have le: "(3 :: Int_t) \<le>s 3"
    by (simp add: word_sle_eq)
  have "fkContainer ?v = Some scenario"
    by simp
  from elementAt_out_of_bounds [OF this, of 3 True] n le show ?thesis
    by simp
qed

section \<open>Cursors\<close>

text \<open>
  Claim C7. Stepping an iterator forth and then back, or back and then forth, restores
  it, whatever its direction: \<^verbatim>\<open>operator++\<close> adds 1 to the position of a forward iterator
  and subtracts 1 from that of a backward one, \<^verbatim>\<open>operator--\<close> does the opposite, and the
  postfix operators return the iterator as it was together with the stepped one. The
  position is a 32-bit integer, and the steps wrap around.
\<close>

theorem advance_retreat:
  "op_decr (op_incr it) = it \<and> op_incr (op_decr it) = it
   \<and> fCurrent (op_incr it) = (if fForward it then fCurrent it + 1 else fCurrent it - 1)
   \<and> fCurrent (op_decr it) = (if fForward it then fCurrent it - 1 else fCurrent it + 1)
   \<and> op_incr_post it = (it, op_incr it) \<and> op_decr_post it = (it, op_decr it)"
  by (simp add: op_incr_def op_decr_def op_incr_post_def op_decr_post_def)

text \<open>
  Claim C8. Two iterators are unequal exactly when their positions differ, and so equal
  exactly when their positions are equal: neither the direction nor the view they refer
  to plays a role. The source defines \<^verbatim>\<open>operator!=\<close> only; equality is its negation.
\<close>

theorem cursor_comparison:
  "op_neq a b = (fCurrent a \<noteq> fCurrent b)
   \<and> op_neq (iterator_ctor v p d) (iterator_ctor w q e) = (p \<noteq> q)"
  by (simp add: op_neq_def iterator_ctor_def)

section \<open>Full traversals\<close>

text \<open>
  Claim C6. For a view made by the standard constructor over a collection whose
  \<^verbatim>\<open>GetNEntries()\<close> is not negative (which matters to a view over all entries only), the
  loop from \<^verbatim>\<open>begin()\<close> until equality with \<^verbatim>\<open>end()\<close> ends and visits exactly
  \<^verbatim>\<open>GetEntries()\<close> elements, those at the logical indices 0, 1, ... in increasing order,
  each what \<^verbatim>\<open>operator[]\<close> returns there; the loop from \<^verbatim>\<open>rbegin()\<close> until equality with
  \<^verbatim>\<open>rend()\<close> ends and visits the same elements in the reverse order.
\<close>

theorem full_traversals:
  assumes ctor: "AliEmcalIterableContainerT_ctor (Some c) useAccept = Inr v"
    and count: "useAccept \<or> 0 \<le>s GetNEntries c"
  shows "\<exists>n xs. GetEntries v = Inr n
           \<and> forward_traversal v = Some (Inr xs)
           \<and> backward_traversal v = Some (Inr (rev xs))
           \<and> int (length xs) = sint n
           \<and> map (\<lambda>k. op_index v (word_of_int k)) [0 .. sint n - 1] = map Inr xs"
proof -
  note view = ctor_view [OF ctor]
  define n where "n = (if fUseAccepted v then fN (fAcceptIndices v) else GetNEntries c)"
  define f where "f = (\<lambda>i. if fUseAccepted v
                             then cont_index c (cells (fAcceptIndices v) ! nat (sint i))
                             else cont_index c i)"
  define xs where "xs = map (\<lambda>k. f (word_of_int k)) [0 .. sint n - 1]"
  have n: "GetEntries v = Inr n"
    using view by (simp add: GetEntries_view n_def)
  have n0: "0 \<le> sint n"
    using view count
    by (auto simp: n_def wf_TArrayI_def word_sle_eq word_sless_alt split: option.splits)
  have elems: "op_index v i = Inr (f i)" if "0 \<le> sint i" "sint i < sint n" for i
    using op_index_in [of v c n i] view n that
    by (simp add: f_def word_sle_eq word_sless_alt)
  have "traverse (iterator_ctor v 0 True) (iterator_ctor v n True) []
          = Some (Inr ([] @ map (\<lambda>k. f (word_of_int k)) [sint (0 :: Int_t) .. sint n - 1]))"
    using n0 by (intro traverse_forward elems) simp_all
  then have fwd: "forward_traversal v = Some (Inr xs)"
    by (simp add: forward_traversal_def end_it_def begin_it_def n xs_def)
  have pred: "sint (n - 1) = sint n - 1"
    using n0 by (intro sint_pred [of "- 1"]) simp
  have "traverse (iterator_ctor v (n - 1) False) (iterator_ctor v (- 1) False) []
          = Some (Inr ([] @ rev (map (\<lambda>k. f (word_of_int k)) [0 .. sint (n - 1)])))"
    using n0 pred by (intro traverse_backward [where n = n] elems) simp_all
  then have bwd: "backward_traversal v = Some (Inr (rev xs))"
    by (simp add: backward_traversal_def rbegin_def rend_def n xs_def pred)
  have len: "int (length xs) = sint n"
    using n0 by (simp add: xs_def)
  have "op_index v (word_of_int k) = Inr (f (word_of_int k))"
    if "k \<in> set [0 .. sint n - 1]" for k
  proof -
    from that have k: "0 \<le> k" "k < sint n" by simp_all
    with sint_range32 [of n] have "sint (word_of_int k :: Int_t) = k"
      by (intro sint_of_int32) linarith+
    with k show ?thesis
      by (intro elems) simp_all
  qed
  then have "map (\<lambda>k. op_index v (word_of_int k)) [0 .. sint n - 1] = map Inr xs"
    unfolding xs_def by (simp del: set_upto)
  with n fwd bwd len show ?thesis
    by blast
qed

text \<open>
  The scenario. The view over the accepted entries visits the elements at the positions
  1, 3 and 4 forward and those at 4, 3 and 1 backward; the view over all entries visits
  the five elements forward and backward.
\<close>

theorem full_traversals_witness:
  "(\<exists>v. AliEmcalIterableContainerT_ctor (Some scenario) True = Inr v
      \<and> GetEntries v = Inr 3
      \<and> forward_traversal v = Some (Inr [Some 101, Some 103, Some 104])
      \<and> backward_traversal v = Some (Inr [Some 104, Some 103, Some 101])
      \<and> map (op_index v) [0, 1, 2] = map Inr [Some 101, Some 103, Some 104])
   \<and> 0 \<le>s GetNEntries scenario
   \<and> (\<exists>v. AliEmcalIterableContainerT_ctor (Some scenario) False = Inr v
      \<and> GetEntries v = Inr 5
      \<and> forward_traversal v = Some (Inr [Some 100, Some 101, Some 102, Some 103, Some 104])
      \<and> backward_traversal v = Some (Inr [Some 104, Some 103, Some 102, Some 101, Some 100]))"
proof -
  define v where "v = \<lparr>fkContainer = Some scenario,
                         fAcceptIndices = \<lparr>fN = 3, fArray = Some [1, 3, 4]\<rparr>,
                         fUseAccepted = True\<rparr>"
  define w where "w = \<lparr>fkContainer = Some scenario, fAcceptIndices = TArrayI_default,
                         fUseAccepted = False\<rparr>"
  have c: "AliEmcalIterableContainerT_ctor (Some scenario) True = Inr v"
    unfolding v_def by code_simp
  have e: "map (op_index v) [0, 1, 2] = map Inr [Some 101, Some 103, Some 104]"
    unfolding v_def by code_simp
  from full_traversals [OF c] obtain n xs where t: "GetEntries v = Inr n"
    "forward_traversal v = Some (Inr xs)" "backward_traversal v = Some (Inr (rev xs))"
    "int (length xs) = sint n"
    "map (\<lambda>k. op_index v (word_of_int k)) [0 .. sint n - 1] = map Inr xs"
    by auto
  have n: "n = 3"
    using t(1) by (simp add: v_def GetEntries_def GetSize_def)
  have "[0 .. sint (3 :: Int_t) - 1] = [0, 1, 2]"
    by code_simp
  with t(5) e
  have "map Inr xs = (map Inr [Some 101, Some 103, Some 104] :: (fault + Int_t option) list)"
    by (simp add: n)
  then have "xs = [Some 101, Some 103, Some 104]"
    by (auto simp: map_eq_Cons_conv)
  with c t(1-3) e
  have accepted: "\<exists>v. AliEmcalIterableContainerT_ctor (Some scenario) True = Inr v
      \<and> GetEntries v = Inr 3
      \<and> forward_traversal v = Some (Inr [Some 101, Some 103, Some 104])
      \<and> backward_traversal v = Some (Inr [Some 104, Some 103, Some 101])
      \<and> map (op_index v) [0, 1, 2] = map Inr [Some 101, Some 103, Some 104]"
    by (auto simp: n)
  have d: "AliEmcalIterableContainerT_ctor (Some scenario) False = Inr w"
    by (simp add: w_def ctor_all)
  have nonneg: "0 \<le>s GetNEntries scenario"
    by (simp add: scenario_def word_sle_eq)
  then have "False \<or> 0 \<le>s GetNEntries scenario"
    by simp
  from full_traversals [OF d this] obtain m ys where u: "GetEntries w = Inr m"
    "forward_traversal w = Some (Inr ys)" "backward_traversal w = Some (Inr (rev ys))"
    "map (\<lambda>k. op_index w (word_of_int k)) [0 .. sint m - 1] = map Inr ys"
    by auto
  have m: "m = 5"
    using u(1) by (simp add: w_def GetEntries_def scenario_def)
  have "map (\<lambda>k. op_index w (word_of_int k)) [0 .. sint (5 :: Int_t) - 1]
          = map Inr [Some 100, Some 101, Some 102, Some 103, Some 104]"
    unfolding w_def by code_simp
  with u(4) have "ys = [Some 100, Some 101, Some 102, Some 103, Some 104]"
    by (auto simp: m map_eq_Cons_conv)
  with d u(1-3)
  have "\<exists>v. AliEmcalIterableContainerT_ctor (Some scenario) False = Inr v
      \<and> GetEntries v = Inr 5
      \<and> forward_traversal v = Some (Inr [Some 100, Some 101, Some 102, Some 103, Some 104])
      \<and> backward_traversal v = Some (Inr [Some 104, Some 103, Some 102, Some 101, Some 100])"
    by (auto simp: m)
  with accepted nonneg show ?thesis
    by blast
qed

text \<open>
  Claim C10. For a view with no entries, \<^verbatim>\<open>rbegin()\<close> and \<^verbatim>\<open>rend()\<close> are both at the
  position -1 and so compare equal, and the backward traversal visits nothing.
\<close>

theorem empty_view_backward:
  assumes "GetEntries v = Inr 0"
  shows "\<exists>b. rbegin v = Inr b \<and> fCurrent b = - 1 \<and> fCurrent (rend v) = - 1
           \<and> \<not> op_neq b (rend v)
           \<and> backward_traversal v = Some (Inr [])"
  using assms
  by (simp add: rbegin_def rend_def iterator_ctor_def op_neq_def backward_traversal_def
                traverse_stop)

text \<open>The view over all entries of the empty collection.\<close>

theorem empty_view_backward_witness:
  "\<exists>v. AliEmcalIterableContainerT_ctor (Some empty_collection) False = Inr v
     \<and> GetEntries v = Inr 0
     \<and> (\<exists>b. rbegin v = Inr b \<and> fCurrent b = - 1 \<and> fCurrent (rend v) = - 1
           \<and> \<not> op_neq b (rend v)
           \<and> backward_traversal v = Some (Inr []))"
proof -
  let ?v = "\<lparr>fkContainer = Some empty_collection, fAcceptIndices = TArrayI_default,
             fUseAccepted = False\<rparr>"
  have n: "GetEntries ?v = Inr 0"
    by (simp add: GetEntries_def empty_collection_def)
  from empty_view_backward [OF n] n show ?thesis
    by (simp add: ctor_all)
qed

section \<open>Construction is deterministic\<close>

text \<open>
  Claim C9. The index storage a construction yields (or the fault it ends in) depends
  only on the mode, the two counts the collection reports and the verdicts of its
  predicate on the positions \<open>[0, count())\<close>: two collections that agree on these give
  the same \<^verbatim>\<open>fAcceptIndices\<close>, whatever their elements and rejection reasons. In
  particular, constructing twice from the same collection gives the same sequence.
\<close>

theorem construction_deterministic:
  fixes c :: "'a AliEmcalContainer" and c' :: "'b AliEmcalContainer"
  assumes "GetNEntries c' = GetNEntries c"
    and "GetNAcceptEntries c' = GetNAcceptEntries c"
    and "\<forall>p. 0 \<le>s p \<and> p <s GetNEntries c \<longrightarrow> accepts c' p = accepts c p"
  shows "map_sum id fAcceptIndices (AliEmcalIterableContainerT_ctor (Some c') useAccept)
           = map_sum id fAcceptIndices (AliEmcalIterableContainerT_ctor (Some c) useAccept)"
proof (cases useAccept)
  case False
  then show ?thesis by (simp add: ctor_all)
next
  case True
  have "0 \<le>s (0 :: Int_t)"
    by (simp add: word_sle_eq)
  with assms(3) have "BuildAcceptIndices_loop c' 0 s = BuildAcceptIndices_loop c 0 s" for s
    by (intro loop_same_verdicts [OF assms(1)]) simp_all
  with True assms(2) show ?thesis
    by (simp add: ctor_accepted BuildAcceptIndices_def split: sum.splits)
qed

text \<open>
  Two collections with different elements and rejection reasons and the same counts and
  verdicts.
\<close>

theorem construction_deterministic_witness:
  "map_sum id fAcceptIndices (AliEmcalIterableContainerT_ctor (Some other_elements) True)
     = map_sum id fAcceptIndices (AliEmcalIterableContainerT_ctor (Some scenario) True)
   \<and> map_sum id fAcceptIndices (AliEmcalIterableContainerT_ctor (Some scenario) True)
     = Inr \<lparr>fN = 3, fArray = Some [1, 3, 4]\<rparr>
   \<and> cont_index other_elements 2 = Some True \<and> cont_index scenario 2 = Some 102
   \<and> AcceptObject other_elements 2 0 = (False, 2) \<and> AcceptObject scenario 2 0 = (False, 1)"
proof -
  have a: "GetNEntries other_elements = GetNEntries scenario"
    and b: "GetNAcceptEntries other_elements = GetNAcceptEntries scenario"
    and c: "\<forall>p. 0 \<le>s p \<and> p <s GetNEntries scenario \<longrightarrow>
               accepts other_elements p = accepts scenario p"
    by (simp_all add: other_elements_def scenario_def accepts_def)
  have d: "map_sum id fAcceptIndices (AliEmcalIterableContainerT_ctor (Some scenario) True)
             = Inr \<lparr>fN = 3, fArray = Some [1, 3, 4]\<rparr>"
    by code_simp
  have e: "cont_index other_elements 2 = Some True \<and> cont_index scenario 2 = Some 102
     \<and> AcceptObject other_elements 2 0 = (False, 2) \<and> AcceptObject scenario 2 0 = (False, 1)"
    by (simp add: other_elements_def scenario_def word_sle_eq word_sless_alt)
  from construction_deterministic [OF a b c, of True] d e show ?thesis
    by simp
qed

end
